theory Spec2Isabelle
  imports Main "HOL-Library.Sublist"
begin

section \<open>The prefix tree of include/Sefn/Trie.hpp\<close>

text \<open>
  A node of \<^verbatim>\<open>Sefn::Trie<T>\<close> has two members: \<^verbatim>\<open>T* object\<close>, a non-owning pointer that
  is \<^verbatim>\<open>nullptr\<close> when the node does not end a word, and \<^verbatim>\<open>std::map<char, Trie*> children\<close>.
  The pointer is modelled as an option (\<open>None\<close> is \<^verbatim>\<open>nullptr\<close>), the ordered map as an
  association list in the map's iteration order, and every child pointer as the owned
  subtree itself: the class has no copy constructor and no node has two parents.

  The map compares its keys with \<^verbatim>\<open>std::less<char>\<close>, and whether \<^verbatim>\<open>char\<close> is signed is
  left to the platform. Every operation that places a key therefore takes the flag \<open>sc\<close>,
  true where \<^verbatim>\<open>char\<close> is signed (as on x86-64): the bytes 128 to 255 then read as -128 to -1
  and come before the others. Running out of memory in \<^verbatim>\<open>new\<close> and words of \<^verbatim>\<open>INT_MAX\<close> or more
  characters (the recursion of \<^verbatim>\<open>removeRecursive\<close> counts in an \<^verbatim>\<open>int\<close>) are outside the model.
\<close>

datatype 'a Trie = Trie (object: "'a option") (children: "(char \<times> 'a Trie) list")

text \<open>A default-constructed \<^verbatim>\<open>Trie\<close>: no object, no children.\<close>

definition new_Trie :: "'a Trie" where
  "new_Trie = Trie None []"

subsection \<open>The comparator of the map\<close>

text \<open>The number a \<^verbatim>\<open>char\<close> stands for: 0 to 255 unsigned, -128 to 127 signed.\<close>

definition char_value :: "bool \<Rightarrow> char \<Rightarrow> int" where
  "char_value sc c =
     (if sc \<and> 128 \<le> int (of_char c) then int (of_char c) - 256 else int (of_char c))"

text \<open>\<^verbatim>\<open>std::less<char>\<close>.\<close>

definition char_less :: "bool \<Rightarrow> char \<Rightarrow> char \<Rightarrow> bool" where
  "char_less sc a b = (char_value sc a < char_value sc b)"

subsection \<open>The operations of \<^verbatim>\<open>std::map\<close> that the class uses\<close>

text \<open>
  \<^verbatim>\<open>children.find(ch)\<close> is \<^const>\<open>map_of\<close>. Storing through the reference returned by
  \<^verbatim>\<open>children[ch]\<close> puts the entry at its place in the order of the comparator, or
  replaces the entry of that key.
\<close>

fun map_store :: "bool \<Rightarrow> char \<Rightarrow> 'v \<Rightarrow> (char \<times> 'v) list \<Rightarrow> (char \<times> 'v) list" where
  "map_store sc k v [] = [(k, v)]"
| "map_store sc k v ((a, b) # xs) =
     (if char_less sc k a then (k, v) # (a, b) # xs
      else if k = a then (k, v) # xs
      else (a, b) # map_store sc k v xs)"

text \<open>\<^verbatim>\<open>children.erase(it)\<close> removes the entry of the iterator's key.\<close>

fun map_erase :: "char \<Rightarrow> (char \<times> 'v) list \<Rightarrow> (char \<times> 'v) list" where
  "map_erase k [] = []"
| "map_erase k ((a, b) # xs) = (if k = a then map_erase k xs else (a, b) # map_erase k xs)"

text \<open>
  A node changed through the pointer \<^verbatim>\<open>it->second\<close>: the entry that \<^verbatim>\<open>find\<close> gave holds the
  node after the change, and the map itself is not touched.
\<close>

fun map_assign :: "char \<Rightarrow> 'v \<Rightarrow> (char \<times> 'v) list \<Rightarrow> (char \<times> 'v) list" where
  "map_assign k v [] = []"
| "map_assign k v ((a, b) # xs) = (if k = a then (a, v) # xs else (a, b) # map_assign k v xs)"

subsection \<open>Private helpers\<close>

text \<open>\<^verbatim>\<open>find\<close>: follow the characters of the prefix; \<open>None\<close> is the \<^verbatim>\<open>nullptr\<close> result.\<close>

fun find_node :: "'a Trie \<Rightarrow> string \<Rightarrow> 'a Trie option" where
  "find_node current [] = Some current"
| "find_node current (ch # rest) =
     (case map_of (children current) ch of
        None \<Rightarrow> None
      | Some child \<Rightarrow> find_node child rest)"

text \<open>
  \<^verbatim>\<open>traverseRecursive\<close>: the callable acts on the caller's state, which is passed through:
  first the node's own object, when it has one, then the children in the order of the map.
\<close>

fun traverseRecursive :: "('a \<Rightarrow> 's \<Rightarrow> 's) \<Rightarrow> 'a Trie \<Rightarrow> 's \<Rightarrow> 's" where
  "traverseRecursive function (Trie obj cs) s =
     fold (\<lambda>kc. traverseRecursive function (snd kc)) cs
       (case obj of None \<Rightarrow> s | Some v \<Rightarrow> function v s)"

text \<open>\<^verbatim>\<open>getAllObjects\<close>: the callable is \<^verbatim>\<open>results.push_back\<close>.\<close>

definition getAllObjects :: "'a Trie \<Rightarrow> 'a list \<Rightarrow> 'a list" where
  "getAllObjects t results = traverseRecursive (\<lambda>obj rs. rs @ [obj]) t results"

text \<open>
  \<^verbatim>\<open>removeRecursive\<close>: the result is the returned flag and the node after the call. The
  cursor \<^verbatim>\<open>(word, index)\<close> of the source is the part of the word from \<^verbatim>\<open>index\<close> on;
  \<^verbatim>\<open>erase\<close> starts it at index 0. A child that is kept was changed through its pointer.
\<close>

fun removeRecursive :: "string \<Rightarrow> 'a Trie \<Rightarrow> bool \<times> 'a Trie" where
  "removeRecursive [] t =
     (if object t = None then (False, t)
      else (children t = [], Trie None (children t)))"
| "removeRecursive (ch # rest) t =
     (case map_of (children t) ch of
        None \<Rightarrow> (False, t)
      | Some child \<Rightarrow>
          (case removeRecursive rest child of
             (canDeleteChild, child') \<Rightarrow>
               if canDeleteChild
               then (let cs = map_erase ch (children t)
                     in (object t = None \<and> cs = [], Trie (object t) cs))
               else (False, Trie (object t) (map_assign ch child' (children t)))))"

subsection \<open>Public operations\<close>

text \<open>
  \<^verbatim>\<open>insert\<close>: the loop walks down, creating the missing child of each character, and the
  last node gets the object.
\<close>

fun insert_word :: "bool \<Rightarrow> 'a option \<Rightarrow> string \<Rightarrow> 'a Trie \<Rightarrow> 'a Trie" where
  "insert_word sc obj [] current = Trie obj (children current)"
| "insert_word sc obj (ch # rest) current =
     (let child = (case map_of (children current) ch of None \<Rightarrow> new_Trie | Some c \<Rightarrow> c)
      in Trie (object current)
           (map_store sc ch (insert_word sc obj rest child) (children current)))"

definition wordExists :: "'a Trie \<Rightarrow> string \<Rightarrow> 'a option" where
  "wordExists t word = (case find_node t word of None \<Rightarrow> None | Some current \<Rightarrow> object current)"

definition prefixExists :: "'a Trie \<Rightarrow> string \<Rightarrow> bool" where
  "prefixExists t pfx = (find_node t pfx \<noteq> None)"

text \<open>\<^verbatim>\<open>erase\<close>: the flag and the tree after the call.\<close>

definition erase :: "string \<Rightarrow> 'a Trie \<Rightarrow> bool \<times> 'a Trie" where
  "erase word t =
     (if wordExists t word = None then (False, t)
      else (True, snd (removeRecursive word t)))"

definition traverse :: "('a \<Rightarrow> 's \<Rightarrow> 's) \<Rightarrow> 'a Trie \<Rightarrow> 's \<Rightarrow> 's" where
  "traverse function t s = traverseRecursive function t s"

definition autoComplete :: "'a Trie \<Rightarrow> string \<Rightarrow> 'a list" where
  "autoComplete t pfx =
     (case find_node t pfx of None \<Rightarrow> [] | Some root \<Rightarrow> getAllObjects root [])"

text \<open>\<^verbatim>\<open>clear\<close>: every child is deleted and the map emptied; \<^verbatim>\<open>object\<close> is not assigned.\<close>

definition clear :: "'a Trie \<Rightarrow> 'a Trie" where
  "clear t = Trie (object t) []"

subsection \<open>Sequences of calls\<close>

text \<open>
  The mutating calls a client can make, and the tree a default-constructed \<^verbatim>\<open>Trie\<close> holds
  after a sequence of them. This is how "a key that was never inserted" is stated.
\<close>

datatype 'a call = Insert "'a option" string | Erase string | Clear

fun perform :: "bool \<Rightarrow> 'a call \<Rightarrow> 'a Trie \<Rightarrow> 'a Trie" where
  "perform sc (Insert obj word) t = insert_word sc obj word t"
| "perform sc (Erase word) t = snd (erase word t)"
| "perform sc Clear t = clear t"

definition after_calls :: "bool \<Rightarrow> 'a call list \<Rightarrow> 'a Trie" where
  "after_calls sc calls = fold (perform sc) calls new_Trie"

subsection \<open>Predicates on trees\<close>

text \<open>
  What \<^verbatim>\<open>std::map\<close> guarantees of every node: the keys are listed in strictly ascending
  order of the comparator.
\<close>

fun sorted_keys :: "bool \<Rightarrow> 'a Trie \<Rightarrow> bool" where
  "sorted_keys sc (Trie obj cs) =
     (sorted_wrt (char_less sc) (map fst cs) \<and> list_all (\<lambda>kc. sorted_keys sc (snd kc)) cs)"

text \<open>The lexicographic order of keys over the order of the comparator.\<close>

definition key_less :: "bool \<Rightarrow> string \<Rightarrow> string \<Rightarrow> bool" where
  "key_less sc v w = ((v, w) \<in> lexord {(a, b). char_less sc a b})"

text \<open>
  A node below the root is live when it has an object or a child, and so is every node
  below it. A tree has no dead ends when every node below the root is live.
\<close>

fun live :: "'a Trie \<Rightarrow> bool" where
  "live (Trie obj cs) = ((obj \<noteq> None \<or> cs \<noteq> []) \<and> list_all (\<lambda>kc. live (snd kc)) cs)"

definition no_dead_ends :: "'a Trie \<Rightarrow> bool" where
  "no_dead_ends t = list_all (\<lambda>kc. live (snd kc)) (children t)"

text \<open>
  The words of a subtree with their objects, in the order of the traversal. It is used in
  the proofs only.
\<close>

fun entries :: "'a Trie \<Rightarrow> (string \<times> 'a) list" where
  "entries (Trie obj cs) =
     (case obj of None \<Rightarrow> [] | Some v \<Rightarrow> [([], v)]) @
     concat (map (\<lambda>kc. map (\<lambda>wv. (fst kc # fst wv, snd wv)) (entries (snd kc))) cs)"

section \<open>The comparator is a strict linear order\<close>

lemma char_value_inj: "char_value sc a = char_value sc b \<Longrightarrow> a = b"
proof -
  assume e: "char_value sc a = char_value sc b"
  define x where "x = int (of_char a)"
  define y where "y = int (of_char b)"
  have "x < 256" "y < 256" "0 \<le> x" "0 \<le> y" by (simp_all add: x_def y_def)
  moreover from e
  have "(if sc \<and> 128 \<le> x then x - 256 else x) = (if sc \<and> 128 \<le> y then y - 256 else y)"
    unfolding char_value_def x_def y_def .
  ultimately have "x = y" by (auto split: if_splits)
  then have "(of_char a :: nat) = of_char b" by (simp add: x_def y_def)
  then show ?thesis by simp
qed

lemma char_less_irrefl: "\<not> char_less sc a a"
  by (simp add: char_less_def)

lemma char_less_trans: "char_less sc a b \<Longrightarrow> char_less sc b c \<Longrightarrow> char_less sc a c"
  by (simp add: char_less_def)

lemma char_less_linear: "a \<noteq> b \<Longrightarrow> \<not> char_less sc a b \<Longrightarrow> char_less sc b a"
  using char_value_inj [of sc a b] unfolding char_less_def by linarith

lemma sorted_char_less_distinct: "sorted_wrt (char_less sc) ks \<Longrightarrow> distinct ks"
  by (induction ks) (auto simp: char_less_irrefl)

text \<open>
  Unsigned, and on characters below 128 in either case, the comparator is the order of the
  bytes as numbers from 0 to 255.
\<close>

lemma char_less_unsigned: "char_less False a b \<longleftrightarrow> (of_char a :: nat) < of_char b"
  by (simp add: char_less_def char_value_def)

lemma char_less_ascii:
  "(of_char a :: nat) < 128 \<Longrightarrow> (of_char b :: nat) < 128 \<Longrightarrow>
   char_less sc a b \<longleftrightarrow> (of_char a :: nat) < of_char b"
  by (simp add: char_less_def char_value_def)

text \<open>Where \<^verbatim>\<open>char\<close> is signed, the byte 233 comes before the letter a; unsigned, after it.\<close>

lemma char_less_high_byte:
  "char_less sc (CHR 0xE9) CHR ''a'' = sc" "char_less sc CHR ''a'' (CHR 0xE9) = (\<not> sc)"
  by (simp_all add: char_less_def char_value_def)

lemma key_less_Nil [simp]: "key_less sc [] w \<longleftrightarrow> w \<noteq> []" "\<not> key_less sc v []"
  by (auto simp: key_less_def neq_Nil_conv)

lemma key_less_Cons [simp]:
  "key_less sc (a # v) (b # w) \<longleftrightarrow> char_less sc a b \<or> a = b \<and> key_less sc v w"
  by (simp add: key_less_def)

lemma key_less_append: "key_less sc (P @ v) (P @ w) \<longleftrightarrow> key_less sc v w"
  by (induction P) (simp_all add: char_less_irrefl)

section \<open>Facts about the map operations\<close>

lemma map_of_map_store: "map_of (map_store sc k v xs) = (map_of xs)(k \<mapsto> v)"
  by (induction xs) (auto simp: fun_eq_iff)

lemma map_of_map_erase: "map_of (map_erase k xs) = (map_of xs)(k := None)"
  by (induction xs) (auto simp: fun_eq_iff)

lemma map_of_map_assign:
  "map_of xs k = Some u \<Longrightarrow> map_of (map_assign k v xs) = (map_of xs)(k \<mapsto> v)"
  by (induction xs) (auto simp: fun_eq_iff)

lemma map_assign_same: "map_of xs k = Some v \<Longrightarrow> map_assign k v xs = xs"
  by (induction xs) (auto split: if_splits)

lemma map_fst_map_assign: "map fst (map_assign k v xs) = map fst xs"
  by (induction xs) auto

lemma map_assign_Nil_iff: "map_assign k v xs = [] \<longleftrightarrow> xs = []"
  by (cases xs) (auto split: if_splits)

lemma map_store_not_Nil: "map_store sc k v xs \<noteq> []"
  by (cases xs) (auto split: if_splits)

lemma map_erase_Nil_iff: "map_erase k xs = [] \<longleftrightarrow> (\<forall>c. c \<noteq> k \<longrightarrow> map_of xs c = None)"
proof (induction xs)
  case Nil
  then show ?case by simp
next
  case (Cons x xs)
  obtain a b where x: "x = (a, b)" by (cases x)
  show ?case
  proof (cases "k = a")
    case True
    with Cons show ?thesis by (auto simp: x)
  next
    case False
    then have "map_of (x # xs) a \<noteq> None" by (simp add: x)
    with False show ?thesis by (auto simp: x)
  qed
qed

lemma set_map_store: "fst ` set (map_store sc k v xs) = insert k (fst ` set xs)"
  by (simp add: dom_map_of_conv_image_fst [symmetric] map_of_map_store)

lemma set_map_erase: "set (map_erase k xs) \<subseteq> set xs"
  by (induction xs) (auto split: if_splits)

lemma list_all_map_store:
  "list_all P xs \<Longrightarrow> P (k, v) \<Longrightarrow> list_all P (map_store sc k v xs)"
  by (induction xs) auto

lemma list_all_map_store_iff:
  "list_all P xs \<Longrightarrow> list_all P (map_store sc k v xs) \<longleftrightarrow> P (k, v)"
  by (induction xs) (auto split: if_splits)

lemma list_all_map_assign: "list_all P xs \<Longrightarrow> P (k, v) \<Longrightarrow> list_all P (map_assign k v xs)"
  by (induction xs) auto

lemma list_all_map_erase: "list_all P xs \<Longrightarrow> list_all P (map_erase k xs)"
  by (induction xs) auto

lemma map_of_list_all: "map_of xs k = Some v \<Longrightarrow> list_all P xs \<Longrightarrow> P (k, v)"
  by (auto simp: list_all_iff dest: map_of_SomeD)

lemma sorted_map_store:
  "sorted_wrt (char_less sc) (map fst xs) \<Longrightarrow>
   sorted_wrt (char_less sc) (map fst (map_store sc k v xs))"
proof (induction xs)
  case Nil
  then show ?case by simp
next
  case (Cons x xs)
  obtain a b where x: "x = (a, b)" by (cases x)
  from Cons.prems have lt: "\<forall>y \<in> fst ` set xs. char_less sc a y"
    and s: "sorted_wrt (char_less sc) (map fst xs)"
    by (auto simp: x)
  show ?case
  proof (cases "char_less sc k a")
    case True
    with lt s show ?thesis by (auto simp: x intro: char_less_trans)
  next
    case False
    show ?thesis
    proof (cases "k = a")
      case True
      with lt s show ?thesis by (auto simp: x char_less_irrefl)
    next
      case ne: False
      with False have "char_less sc a k" by (simp add: char_less_linear)
      moreover have "sorted_wrt (char_less sc) (map fst (map_store sc k v xs))"
        using s by (rule Cons.IH)
      ultimately show ?thesis using False ne lt by (simp add: x set_map_store)
    qed
  qed
qed

lemma sorted_map_erase:
  "sorted_wrt (char_less sc) (map fst xs) \<Longrightarrow>
   sorted_wrt (char_less sc) (map fst (map_erase k xs))"
  using set_map_erase [of k] by (induction xs) fastforce+

section \<open>Lookup\<close>

lemma find_node_append:
  "find_node t (xs @ ys) = (case find_node t xs of None \<Rightarrow> None | Some n \<Rightarrow> find_node n ys)"
  by (induction xs arbitrary: t) (simp_all split: option.splits)

lemma wordExists_Nil: "wordExists t [] = object t"
  by (simp add: wordExists_def)

lemma wordExists_Cons:
  "wordExists t (c # r) =
     (case map_of (children t) c of None \<Rightarrow> None | Some child \<Rightarrow> wordExists child r)"
  by (simp add: wordExists_def split: option.splits)

lemma wordExists_append:
  "wordExists t (P @ k) = (case find_node t P of None \<Rightarrow> None | Some n \<Rightarrow> wordExists n k)"
  by (simp add: wordExists_def find_node_append split: option.splits)

lemma wordExists_new_Trie: "wordExists new_Trie K = None"
  by (cases K) (simp_all add: wordExists_def new_Trie_def)

text \<open>
  Claim C9. On every tree, the empty one included, \<^verbatim>\<open>prefixExists("")\<close> is true, and when
  \<^verbatim>\<open>prefixExists(P)\<close> is true then \<^verbatim>\<open>prefixExists(P')\<close> is true for every prefix \<open>P'\<close> of
  \<open>P\<close>.
\<close>

theorem prefixExists_downward_closed:
  "prefixExists t [] \<and> (\<forall>P P'. prefixExists t P \<and> prefix P' P \<longrightarrow> prefixExists t P')"
  by (auto simp: prefixExists_def prefix_def find_node_append split: option.splits)

theorem prefixExists_downward_closed_witness:
  "(let t = insert_word True (Some (1::nat)) ''hello'' new_Trie
    in prefixExists t ''hello'' \<and> prefix ''he'' ''hello'' \<and> prefixExists t ''he''
     \<and> prefixExists (new_Trie :: nat Trie) [])"
proof -
  define t where "t = insert_word True (Some (1::nat)) ''hello'' new_Trie"
  have h: "prefixExists t ''hello'' \<and> prefix ''he'' ''hello''"
    by (simp add: t_def prefixExists_def new_Trie_def Let_def)
  from h have 1: "prefixExists t ''he''"
    by (rule prefixExists_downward_closed
        [of t, THEN conjunct2, rule_format, of "''hello''" "''he''"])
  from prefixExists_downward_closed [of "new_Trie :: nat Trie"]
  have 2: "prefixExists (new_Trie :: nat Trie) []"
    by (rule conjunct1)
  show ?thesis unfolding Let_def t_def [symmetric]
    by (intro conjI) (rule h [THEN conjunct1], rule h [THEN conjunct2], rule 1, rule 2)
qed

section \<open>Insertion\<close>

lemma find_node_insert_word: "find_node (insert_word sc obj word t) word \<noteq> None"
  by (induction word arbitrary: t) (simp_all add: map_of_map_store Let_def)

lemma wordExists_insert_word: "wordExists (insert_word sc obj word t) word = obj"
  unfolding wordExists_def
  by (induction word arbitrary: t) (simp_all add: map_of_map_store Let_def)

lemma wordExists_insert_word_other:
  "K \<noteq> K' \<Longrightarrow> wordExists (insert_word sc V K' t) K = wordExists t K"
proof (induction K' arbitrary: K t)
  case Nil
  then show ?case by (cases K) (simp_all add: wordExists_Nil wordExists_Cons)
next
  case (Cons ch rest)
  show ?case
  proof (cases K)
    case Nil
    then show ?thesis by (simp add: wordExists_Nil Let_def)
  next
    case (Cons c r)
    show ?thesis
    proof (cases "c = ch")
      case False
      with Cons show ?thesis by (simp add: wordExists_Cons Let_def map_of_map_store)
    next
      case True
      with Cons Cons.prems have ne: "r \<noteq> rest" by simp
      show ?thesis
        using Cons True Cons.IH [OF ne]
        by (simp add: wordExists_Cons wordExists_new_Trie Let_def map_of_map_store
            split: option.splits)
    qed
  qed
qed

text \<open>
  Claim C5. Immediately after \<^verbatim>\<open>insert(V, K)\<close> on any tree, \<^verbatim>\<open>wordExists(K)\<close> returns V,
  for every key K, the empty key included, and every pointer V. The model of \<^verbatim>\<open>insert\<close> is
  a total function without an error result: the source has no failing branch.
\<close>

theorem insert_then_wordExists:
  "wordExists (insert_word sc V K t) K = V"
  by (rule wordExists_insert_word)

text \<open>
  Claim C6. Inserting K with V2 after inserting K with V1 makes \<^verbatim>\<open>wordExists(K)\<close> return
  V2, and not V1 when the two differ: the last write wins and no error is raised.
\<close>

theorem insert_overwrites:
  "wordExists (insert_word sc V2 K (insert_word sc V1 K t)) K = V2
   \<and> (V1 \<noteq> V2 \<longrightarrow> wordExists (insert_word sc V2 K (insert_word sc V1 K t)) K \<noteq> V1)"
  by (simp add: wordExists_insert_word)

theorem insert_overwrites_witness:
  "Some (1::nat) \<noteq> Some 2
   \<and> wordExists (insert_word True (Some 2) ''key'' (insert_word True (Some (1::nat)) ''key'' new_Trie)) ''key''
       = Some 2
   \<and> wordExists (insert_word True (Some 2) ''key'' (insert_word True (Some (1::nat)) ''key'' new_Trie)) ''key''
       \<noteq> Some 1"
proof -
  have h: "Some (1::nat) \<noteq> Some 2" by simp
  note o = insert_overwrites [of True "Some 2" "''key''" "Some (1::nat)" new_Trie]
  from o have 1: "wordExists (insert_word True (Some 2) ''key''
      (insert_word True (Some (1::nat)) ''key'' new_Trie)) ''key'' = Some 2"
    by (rule conjunct1)
  from o h have 2: "wordExists (insert_word True (Some 2) ''key''
      (insert_word True (Some (1::nat)) ''key'' new_Trie)) ''key'' \<noteq> Some 1"
    by (rule conjunct2 [THEN mp])
  from h 1 2 show ?thesis by (intro conjI)
qed

section \<open>Removal\<close>

lemma removeRecursive_deleted:
  "removeRecursive K t = (True, t') \<Longrightarrow> t' = Trie None []"
  by (induction K arbitrary: t t')
     (auto simp: Let_def split: option.splits prod.splits if_splits)

text \<open>Removing one word changes the lookup of that word only.\<close>

lemma wordExists_removeRecursive:
  "wordExists (snd (removeRecursive K' t)) K = (if K = K' then None else wordExists t K)"
proof (induction K' arbitrary: K t)
  case Nil
  then show ?case by (cases K) (simp_all add: wordExists_Nil wordExists_Cons)
next
  case (Cons ch rest)
  show ?case
  proof (cases "map_of (children t) ch")
    case None
    then show ?thesis by (cases K) (auto simp: wordExists_Cons)
  next
    case (Some child)
    obtain d child' where rr: "removeRecursive rest child = (d, child')"
      by (cases "removeRecursive rest child")
    have IH: "wordExists child' r = (if r = rest then None else wordExists child r)" for r
      using Cons.IH [of child r] rr by simp
    show ?thesis
    proof (cases d)
      case True
      with rr have "child' = Trie None []" by (simp add: removeRecursive_deleted)
      then have gone: "wordExists child' r = None" for r
        by (cases r) (simp_all add: wordExists_Nil wordExists_Cons)
      with IH have dead: "r \<noteq> rest \<Longrightarrow> wordExists child r = None" for r
        by metis
      show ?thesis
      proof (cases K)
        case Nil
        with Some rr True show ?thesis by (simp add: wordExists_Nil Let_def)
      next
        case (Cons c r)
        with Some rr True dead show ?thesis
          by (auto simp: wordExists_Cons Let_def map_of_map_erase)
      qed
    next
      case False
      show ?thesis
      proof (cases K)
        case Nil
        with Some rr False show ?thesis by (simp add: wordExists_Nil)
      next
        case (Cons c r)
        with Some rr False IH show ?thesis
          by (auto simp: wordExists_Cons map_of_map_assign [OF Some])
      qed
    qed
  qed
qed

lemma wordExists_erase:
  "wordExists (snd (erase K' t)) K = (if K = K' then None else wordExists t K)"
  by (simp add: erase_def wordExists_removeRecursive)

subsection \<open>Clearing\<close>

lemma wordExists_clear: "wordExists (clear t) K = (if K = [] then object t else None)"
  by (cases K) (simp_all add: clear_def wordExists_Nil wordExists_Cons)

lemma prefixExists_clear: "prefixExists (clear t) P = (P = [])"
  by (cases P) (simp_all add: clear_def prefixExists_def)

lemma clear_clear: "clear (clear t) = clear t"
  by (simp add: clear_def)

text \<open>
  Claim C2. After \<^verbatim>\<open>clear()\<close> the tree is claimed empty, the root without an object, so that
  \<^verbatim>\<open>wordExists\<close> finds no key, the empty key included. The facts above give the part that
  holds: no key other than the empty one is found, \<^verbatim>\<open>prefixExists\<close> is true of the empty
  prefix only, and a second \<^verbatim>\<open>clear()\<close> changes nothing. But \<^verbatim>\<open>clear()\<close> leaves the root's
  \<^verbatim>\<open>object\<close> as it was, while \<^verbatim>\<open>erase("")\<close> resets it: after \<^verbatim>\<open>insert(V, "")\<close> and \<^verbatim>\<open>clear()\<close>
  the empty key is still found.
\<close>

theorem clear_keeps_root_object:
  "wordExists (clear (insert_word sc (Some (7::nat)) [] new_Trie)) [] = Some 7
   \<and> autoComplete (clear (insert_word sc (Some (7::nat)) [] new_Trie)) [] = [7]
   \<and> wordExists (snd (erase [] (insert_word sc (Some (7::nat)) [] new_Trie))) [] = None"
  by (simp add: wordExists_def clear_def new_Trie_def autoComplete_def getAllObjects_def erase_def)

subsection \<open>Keys that were never inserted\<close>

lemma wordExists_perform_absent:
  "wordExists t K = None \<Longrightarrow> \<forall>obj. c \<noteq> Insert obj K \<Longrightarrow> wordExists (perform sc c t) K = None"
  by (cases c)
     (auto simp: wordExists_insert_word_other wordExists_erase wordExists_clear wordExists_Nil)

lemma wordExists_fold_perform_absent:
  "wordExists t K = None \<Longrightarrow> \<forall>obj. Insert obj K \<notin> set calls \<Longrightarrow>
   wordExists (fold (perform sc) calls t) K = None"
proof (induction calls arbitrary: t)
  case Nil
  then show ?case by simp
next
  case (Cons c calls)
  from Cons.prems have "\<forall>obj. c \<noteq> Insert obj K" by auto
  with Cons.prems(1) have "wordExists (perform sc c t) K = None"
    by (rule wordExists_perform_absent)
  moreover from Cons.prems have "\<forall>obj. Insert obj K \<notin> set calls" by auto
  ultimately show ?case using Cons.IH by simp
qed

lemma never_inserted:
  "\<forall>obj. Insert obj K \<notin> set calls \<Longrightarrow> wordExists (after_calls sc calls) K = None"
  unfolding after_calls_def
  by (rule wordExists_fold_perform_absent) (simp_all add: wordExists_new_Trie)

subsection \<open>The claims about \<^verbatim>\<open>erase\<close>\<close>

text \<open>
  Claim C3. When \<^verbatim>\<open>wordExists(K)\<close> returns an object, \<^verbatim>\<open>erase(K)\<close> returns true, afterwards
  \<^verbatim>\<open>wordExists(K)\<close> finds nothing, and a repeated \<^verbatim>\<open>erase(K)\<close> returns false. The
  \<^verbatim>\<open>erase\<close> of a key that no call has inserted into a tree that started empty returns false.
\<close>

theorem erase_found_then_gone:
  "(wordExists t K \<noteq> None \<longrightarrow>
      fst (erase K t) \<and> wordExists (snd (erase K t)) K = None
      \<and> \<not> fst (erase K (snd (erase K t))))
   \<and> ((\<forall>obj. Insert obj K' \<notin> set calls) \<longrightarrow> \<not> fst (erase K' (after_calls sc calls)))"
  by (simp add: erase_def wordExists_removeRecursive never_inserted)

theorem erase_found_then_gone_witness:
  "(let t = insert_word True (Some (100::nat)) ''test'' new_Trie
    in wordExists t ''test'' \<noteq> None
     \<and> fst (erase ''test'' t) \<and> wordExists (snd (erase ''test'' t)) ''test'' = None
     \<and> \<not> fst (erase ''test'' (snd (erase ''test'' t))))
   \<and> (\<forall>obj. Insert obj ''other'' \<notin> set [Insert (Some (100::nat)) ''test''])
   \<and> \<not> fst (erase ''other'' (after_calls True [Insert (Some (100::nat)) ''test'']))"
proof -
  define t where "t = insert_word True (Some (100::nat)) ''test'' new_Trie"
  define calls where "calls = [Insert (Some (100::nat)) ''test'']"
  have h1: "wordExists t ''test'' \<noteq> None"
    by (simp add: t_def wordExists_def new_Trie_def Let_def)
  have h2: "\<forall>obj. Insert obj ''other'' \<notin> set calls"
    by (simp add: calls_def)
  note e = erase_found_then_gone [of t "''test''" "''other''" calls True]
  from e h1 have 1: "fst (erase ''test'' t) \<and> wordExists (snd (erase ''test'' t)) ''test'' = None
     \<and> \<not> fst (erase ''test'' (snd (erase ''test'' t)))"
    by (rule conjunct1 [THEN mp])
  from e h2 have 2: "\<not> fst (erase ''other'' (after_calls True calls))"
    by (rule conjunct2 [THEN mp])
  show ?thesis unfolding Let_def t_def [symmetric] calls_def [symmetric]
    by (intro conjI) (rule h1, rule 1 [THEN conjunct1], rule 1 [THEN conjunct2, THEN conjunct1],
      rule 1 [THEN conjunct2, THEN conjunct2], rule h2, rule 2)
qed

text \<open>
  Claim C4. When K does not resolve to a stored object, because no path spells K or because
  the node at the end of K has no object, \<^verbatim>\<open>erase(K)\<close> returns false and the tree after the
  call is the tree before it.
\<close>

theorem erase_not_found_unchanged:
  "find_node t K = None \<or> (\<exists>n. find_node t K = Some n \<and> object n = None) \<Longrightarrow>
   wordExists t K = None \<and> erase K t = (False, t)"
  by (auto simp: erase_def wordExists_def)

theorem erase_not_found_unchanged_witness:
  "(let t = insert_word True (Some (1::nat)) ''apple'' new_Trie
    in (find_node t ''app'' = None \<or> (\<exists>n. find_node t ''app'' = Some n \<and> object n = None))
     \<and> wordExists t ''app'' = None \<and> erase ''app'' t = (False, t))"
proof -
  define t where "t = insert_word True (Some (1::nat)) ''apple'' new_Trie"
  have h: "find_node t ''app'' = None \<or> (\<exists>n. find_node t ''app'' = Some n \<and> object n = None)"
    by (simp add: t_def new_Trie_def Let_def)
  note e = erase_not_found_unchanged [OF h]
  show ?thesis unfolding Let_def t_def [symmetric]
    by (intro conjI) (rule h, rule e [THEN conjunct1], rule e [THEN conjunct2])
qed

text \<open>A node reported as deletable held nothing but the path of the word.\<close>

lemma removeRecursive_deleted_path:
  "removeRecursive K t = (True, t') \<Longrightarrow> find_node t Q \<noteq> None \<Longrightarrow>
   prefix Q K \<and> (Q \<noteq> K \<longrightarrow> wordExists t Q = None)"
proof (induction K arbitrary: t t' Q)
  case Nil
  then have "children t = []" by (auto split: if_splits)
  with Nil.prems(2) show ?case by (cases Q) simp_all
next
  case (Cons ch rest)
  from Cons.prems(1) obtain child child'
    where c: "map_of (children t) ch = Some child"
      and rr: "removeRecursive rest child = (True, child')"
      and o: "object t = None" and e: "map_erase ch (children t) = []"
    by (auto simp: Let_def split: option.splits prod.splits if_splits)
  show ?case
  proof (cases Q)
    case Nil
    with o show ?thesis by (simp add: wordExists_Nil)
  next
    case (Cons c q)
    with Cons.prems(2) e have cc: "c = ch"
      by (auto simp: map_erase_Nil_iff split: option.splits)
    with Cons Cons.prems(2) c have "find_node child q \<noteq> None" by simp
    from Cons.IH [OF rr this] show ?thesis
      by (simp add: Cons cc wordExists_Cons c)
  qed
qed

text \<open>A node that is kept holds something besides the path of the word.\<close>

lemma removeRecursive_kept_reason:
  "removeRecursive K t = (False, t') \<Longrightarrow> wordExists t K \<noteq> None \<Longrightarrow>
   \<exists>Q. find_node t Q \<noteq> None \<and> (\<not> prefix Q K \<or> (Q \<noteq> K \<and> wordExists t Q \<noteq> None))"
proof (induction K arbitrary: t t')
  case Nil
  then have "children t \<noteq> []" by (auto simp: wordExists_Nil split: if_splits)
  then obtain c x xs where "children t = (c, x) # xs" by (cases "children t") auto
  then have "find_node t [c] \<noteq> None \<and> \<not> prefix [c] []" by simp
  then show ?case by blast
next
  case (Cons ch rest)
  from Cons.prems(2) obtain child
    where c: "map_of (children t) ch = Some child" and w: "wordExists child rest \<noteq> None"
    by (auto simp: wordExists_Cons split: option.splits)
  obtain d child' where rr: "removeRecursive rest child = (d, child')"
    by (cases "removeRecursive rest child")
  show ?case
  proof (cases d)
    case False
    with rr have "removeRecursive rest child = (False, child')" by simp
    from Cons.IH [OF this w] obtain q
      where "find_node child q \<noteq> None"
        and "\<not> prefix q rest \<or> (q \<noteq> rest \<and> wordExists child q \<noteq> None)"
      by blast
    with c have "find_node t (ch # q) \<noteq> None \<and>
        (\<not> prefix (ch # q) (ch # rest) \<or> (ch # q \<noteq> ch # rest \<and> wordExists t (ch # q) \<noteq> None))"
      by (simp add: wordExists_Cons)
    then show ?thesis by blast
  next
    case True
    with Cons.prems(1) c rr
    have "object t \<noteq> None \<or> map_erase ch (children t) \<noteq> []"
      by (auto simp: Let_def)
    then show ?thesis
    proof
      assume "object t \<noteq> None"
      then have "find_node t [] \<noteq> None \<and> ([] \<noteq> ch # rest \<and> wordExists t [] \<noteq> None)"
        by (simp add: wordExists_Nil)
      then show ?thesis by blast
    next
      assume "map_erase ch (children t) \<noteq> []"
      then obtain c' where "c' \<noteq> ch" "map_of (children t) c' \<noteq> None"
        by (auto simp: map_erase_Nil_iff)
      then have "find_node t [c'] \<noteq> None \<and> \<not> prefix [c'] (ch # rest)"
        by (auto split: option.splits)
      then show ?thesis by blast
    qed
  qed
qed

text \<open>Off the path of the erased word every node keeps its whole subtree.\<close>

lemma find_node_removeRecursive_off_path:
  "\<not> prefix P K \<Longrightarrow> find_node (snd (removeRecursive K t)) P = find_node t P"
proof (induction K arbitrary: t P)
  case Nil
  then obtain c r where "P = c # r" by (cases P) auto
  then show ?case by simp
next
  case (Cons ch rest)
  from Cons.prems obtain c r where P: "P = c # r" by (cases P) auto
  show ?case
  proof (cases "map_of (children t) ch")
    case None
    then show ?thesis by simp
  next
    case (Some child)
    obtain d child' where rr: "removeRecursive rest child = (d, child')"
      by (cases "removeRecursive rest child")
    show ?thesis
    proof (cases "c = ch")
      case False
      with Some rr show ?thesis
        by (cases d) (simp_all add: P Let_def map_of_map_erase map_of_map_assign [OF Some])
    next
      case True
      with Cons.prems P have np: "\<not> prefix r rest" by simp
      show ?thesis
      proof (cases d)
        case True
        with rr have "removeRecursive rest child = (True, child')" by simp
        from removeRecursive_deleted_path [OF this, of r] np
        have "find_node child r = None" by blast
        with Some rr True \<open>c = ch\<close> show ?thesis
          by (simp add: P Let_def map_of_map_erase)
      next
        case False
        from Cons.IH [OF np, of child] rr have "find_node child' r = find_node child r" by simp
        with Some rr False \<open>c = ch\<close> show ?thesis
          by (simp add: P map_of_map_assign [OF Some])
      qed
    qed
  qed
qed

text \<open>On the path, a node that is still there was kept for a reason.\<close>

lemma find_node_removeRecursive_on_path:
  "wordExists t K \<noteq> None \<Longrightarrow> prefix P K \<Longrightarrow> P \<noteq> [] \<Longrightarrow>
   find_node (snd (removeRecursive K t)) P \<noteq> None \<Longrightarrow>
   \<exists>Q. prefix P Q \<and> find_node t Q \<noteq> None
       \<and> (\<not> prefix Q K \<or> (Q \<noteq> K \<and> wordExists t Q \<noteq> None))"
proof (induction K arbitrary: t P)
  case Nil
  then show ?case by simp
next
  case (Cons ch rest)
  from Cons.prems(2,3) obtain ps where P: "P = ch # ps" and pp: "prefix ps rest"
    by (cases P) auto
  from Cons.prems(1) obtain child
    where c: "map_of (children t) ch = Some child" and w: "wordExists child rest \<noteq> None"
    by (auto simp: wordExists_Cons split: option.splits)
  obtain d child' where rr: "removeRecursive rest child = (d, child')"
    by (cases "removeRecursive rest child")
  from Cons.prems(4) c rr have nd: "\<not> d"
    by (cases d) (simp_all add: P Let_def map_of_map_erase)
  with Cons.prems(4) c rr have f: "find_node child' ps \<noteq> None"
    by (simp add: P map_of_map_assign [OF c])
  have "\<exists>q. prefix ps q \<and> find_node child q \<noteq> None
       \<and> (\<not> prefix q rest \<or> (q \<noteq> rest \<and> wordExists child q \<noteq> None))"
  proof (cases "ps = []")
    case True
    from rr nd have "removeRecursive rest child = (False, child')" by simp
    from removeRecursive_kept_reason [OF this w] True show ?thesis by simp
  next
    case False
    from Cons.IH [OF w pp False] f rr show ?thesis by simp
  qed
  then obtain q where "prefix ps q" "find_node child q \<noteq> None"
    "\<not> prefix q rest \<or> (q \<noteq> rest \<and> wordExists child q \<noteq> None)"
    by blast
  with c have "prefix P (ch # q) \<and> find_node t (ch # q) \<noteq> None
       \<and> (\<not> prefix (ch # q) (ch # rest) \<or> (ch # q \<noteq> ch # rest \<and> wordExists t (ch # q) \<noteq> None))"
    by (simp add: P wordExists_Cons)
  then show ?case by blast
qed

lemma find_node_prefix: "find_node t Q \<noteq> None \<Longrightarrow> prefix P Q \<Longrightarrow> find_node t P \<noteq> None"
  by (auto simp: prefix_def find_node_append split: option.splits)

lemma wordExists_find_node: "wordExists t Q \<noteq> None \<Longrightarrow> find_node t Q \<noteq> None"
  by (auto simp: wordExists_def split: option.splits)

lemma snd_erase: "wordExists t K \<noteq> None \<Longrightarrow> snd (erase K t) = snd (removeRecursive K t)"
  by (cases "wordExists t K") (simp_all add: erase_def)

lemma prefixExists_erase_on_path:
  assumes "wordExists t K \<noteq> None" and "prefix P K" and "P \<noteq> []"
  shows "prefixExists (snd (erase K t)) P \<longleftrightarrow>
     (\<exists>Q. prefix P Q \<and> prefixExists t Q \<and> (\<not> prefix Q K \<or> (Q \<noteq> K \<and> wordExists t Q \<noteq> None)))"
proof
  assume "prefixExists (snd (erase K t)) P"
  then have "find_node (snd (removeRecursive K t)) P \<noteq> None"
    unfolding prefixExists_def snd_erase [OF assms(1)] .
  from find_node_removeRecursive_on_path [OF assms this]
  show "\<exists>Q. prefix P Q \<and> prefixExists t Q \<and> (\<not> prefix Q K \<or> (Q \<noteq> K \<and> wordExists t Q \<noteq> None))"
    by (simp add: prefixExists_def)
next
  assume "\<exists>Q. prefix P Q \<and> prefixExists t Q \<and> (\<not> prefix Q K \<or> (Q \<noteq> K \<and> wordExists t Q \<noteq> None))"
  then obtain Q where pq: "prefix P Q" and f: "find_node t Q \<noteq> None"
    and r: "\<not> prefix Q K \<or> (Q \<noteq> K \<and> wordExists t Q \<noteq> None)"
    by (auto simp: prefixExists_def)
  from r have "find_node (snd (removeRecursive K t)) Q \<noteq> None"
  proof
    assume "\<not> prefix Q K"
    with f show ?thesis by (simp add: find_node_removeRecursive_off_path)
  next
    assume "Q \<noteq> K \<and> wordExists t Q \<noteq> None"
    then have "wordExists (snd (removeRecursive K t)) Q \<noteq> None"
      by (simp add: wordExists_removeRecursive)
    then show ?thesis by (rule wordExists_find_node)
  qed
  then have "find_node (snd (removeRecursive K t)) P \<noteq> None" using pq by (rule find_node_prefix)
  then show "prefixExists (snd (erase K t)) P"
    unfolding prefixExists_def snd_erase [OF assms(1)] .
qed

lemma find_node_erase_off_path:
  "\<not> prefix P K \<Longrightarrow> find_node (snd (erase K t)) P = find_node t P"
  by (simp add: erase_def find_node_removeRecursive_off_path)

text \<open>
  Claim C7. \<^verbatim>\<open>erase\<close> prunes only the dead branch and leaves what is still in use untouched,
  on every tree and for every key: every other key keeps its object; every node off the path
  of the erased key keeps its whole subtree; and when the key was stored, a node on its path
  below the root is still there exactly when the tree held something at or below it besides
  the erased key's own path, that is a node off the path or another key with an object. In
  particular, after inserting objects for "apple" and "app" into an empty tree and erasing
  "apple", the call having returned true, \<^verbatim>\<open>prefixExists("appl")\<close> is false and
  \<^verbatim>\<open>wordExists("app")\<close> still returns the object inserted for "app".
\<close>

theorem erase_prunes_dead_branch_only:
  "(\<forall>K'. K' \<noteq> K \<longrightarrow> wordExists (snd (erase K t)) K' = wordExists t K')
   \<and> (\<forall>P. \<not> prefix P K \<longrightarrow> find_node (snd (erase K t)) P = find_node t P)
   \<and> (wordExists t K \<noteq> None \<longrightarrow>
        (\<forall>P. prefix P K \<and> P \<noteq> [] \<longrightarrow>
           (prefixExists (snd (erase K t)) P \<longleftrightarrow>
            (\<exists>Q. prefix P Q \<and> prefixExists t Q
                 \<and> (\<not> prefix Q K \<or> (Q \<noteq> K \<and> wordExists t Q \<noteq> None))))))
   \<and> (let t2 = insert_word sc (Some b) ''app'' (insert_word sc (Some a) ''apple'' new_Trie)
      in fst (erase ''apple'' t2)
       \<and> \<not> prefixExists (snd (erase ''apple'' t2)) ''appl''
       \<and> wordExists (snd (erase ''apple'' t2)) ''app'' = Some b)"
proof (intro conjI)
  show "\<forall>K'. K' \<noteq> K \<longrightarrow> wordExists (snd (erase K t)) K' = wordExists t K'"
    by (simp add: wordExists_erase)
  show "\<forall>P. \<not> prefix P K \<longrightarrow> find_node (snd (erase K t)) P = find_node t P"
    by (simp add: find_node_erase_off_path)
  show "wordExists t K \<noteq> None \<longrightarrow>
        (\<forall>P. prefix P K \<and> P \<noteq> [] \<longrightarrow>
           (prefixExists (snd (erase K t)) P \<longleftrightarrow>
            (\<exists>Q. prefix P Q \<and> prefixExists t Q
                 \<and> (\<not> prefix Q K \<or> (Q \<noteq> K \<and> wordExists t Q \<noteq> None)))))"
    using prefixExists_erase_on_path [of t K] by blast
  show "let t2 = insert_word sc (Some b) ''app'' (insert_word sc (Some a) ''apple'' new_Trie)
      in fst (erase ''apple'' t2)
       \<and> \<not> prefixExists (snd (erase ''apple'' t2)) ''appl''
       \<and> wordExists (snd (erase ''apple'' t2)) ''app'' = Some b"
    by (simp add: erase_def wordExists_def prefixExists_def new_Trie_def Let_def
        char_less_def char_value_def)
qed

theorem erase_prunes_dead_branch_only_witness:
  "(let t = insert_word True (Some (20::nat)) ''app'' (insert_word True (Some 10) ''apple'' new_Trie)
    in ''app'' \<noteq> ''apple'' \<and> \<not> prefix ''b'' ''apple'' \<and> wordExists t ''apple'' \<noteq> None
     \<and> prefix ''app'' ''apple'' \<and> ''app'' \<noteq> []
     \<and> wordExists (snd (erase ''apple'' t)) ''app'' = wordExists t ''app''
     \<and> find_node (snd (erase ''apple'' t)) ''b'' = find_node t ''b''
     \<and> prefixExists (snd (erase ''apple'' t)) ''app'')"
proof -
  define t where
    "t = insert_word True (Some (20::nat)) ''app'' (insert_word True (Some 10) ''apple'' new_Trie)"
  have h1: "''app'' \<noteq> ''apple''" by simp
  have h2: "\<not> prefix ''b'' ''apple''" by simp
  have h3: "wordExists t ''apple'' \<noteq> None"
    by (simp add: t_def wordExists_def new_Trie_def Let_def char_less_def char_value_def)
  have h4: "prefix ''app'' ''apple'' \<and> ''app'' \<noteq> []" by simp
  have "prefix ''app'' ''app'' \<and> prefixExists t ''app''
      \<and> (\<not> prefix ''app'' ''apple'' \<or> (''app'' \<noteq> ''apple'' \<and> wordExists t ''app'' \<noteq> None))"
    by (simp add: t_def wordExists_def prefixExists_def new_Trie_def Let_def
        char_less_def char_value_def)
  then have h5: "\<exists>Q. prefix ''app'' Q \<and> prefixExists t Q
      \<and> (\<not> prefix Q ''apple'' \<or> (Q \<noteq> ''apple'' \<and> wordExists t Q \<noteq> None))"
    by (rule exI)
  note e = erase_prunes_dead_branch_only [of "''apple''" t]
  from h1 have 1: "wordExists (snd (erase ''apple'' t)) ''app'' = wordExists t ''app''"
    by (rule e [THEN conjunct1, rule_format])
  from h2 have 2: "find_node (snd (erase ''apple'' t)) ''b'' = find_node t ''b''"
    by (rule e [THEN conjunct2, THEN conjunct1, rule_format])
  from e [THEN conjunct2, THEN conjunct2, THEN conjunct1, rule_format, OF h3 h4] h5
  have 3: "prefixExists (snd (erase ''apple'' t)) ''app''"
    by (rule iffD2)
  show ?thesis unfolding Let_def t_def [symmetric]
    by (intro conjI) (rule h1, rule h2, rule h3, rule h4 [THEN conjunct1],
      rule h4 [THEN conjunct2], rule 1, rule 2, rule 3)
qed

section \<open>Dead ends\<close>

lemma live_no_dead_ends: "live t \<Longrightarrow> no_dead_ends t"
  by (cases t) (simp add: no_dead_ends_def)

lemma live_Trie:
  "live (Trie obj cs) \<longleftrightarrow> (obj \<noteq> None \<or> cs \<noteq> []) \<and> no_dead_ends (Trie obj cs)"
  by (simp add: no_dead_ends_def)

lemma no_dead_ends_child:
  "no_dead_ends t \<Longrightarrow> map_of (children t) ch = Some c \<Longrightarrow> live c"
  unfolding no_dead_ends_def by (drule (1) map_of_list_all) simp

lemma no_dead_ends_store:
  "no_dead_ends t \<Longrightarrow> live c \<Longrightarrow> live (Trie (object t) (map_store sc ch c (children t)))"
  unfolding no_dead_ends_def by (simp add: map_store_not_Nil list_all_map_store)

lemma no_dead_ends_assign:
  "no_dead_ends t \<Longrightarrow> live c \<Longrightarrow> map_of (children t) ch = Some x \<Longrightarrow>
   live (Trie (object t) (map_assign ch c (children t)))"
  unfolding no_dead_ends_def by (auto simp: map_assign_Nil_iff list_all_map_assign)

lemma no_dead_ends_erase_child:
  "no_dead_ends t \<Longrightarrow> no_dead_ends (Trie (object t) (map_erase ch (children t)))"
  unfolding no_dead_ends_def by (simp add: list_all_map_erase)

text \<open>Inserting an object that is not null leaves every node of the path live.\<close>

lemma live_insert_word:
  "no_dead_ends t \<Longrightarrow> V \<noteq> None \<Longrightarrow> live (insert_word sc V K t)"
proof (induction K arbitrary: t)
  case Nil
  then show ?case by (simp add: no_dead_ends_def)
next
  case (Cons ch rest)
  define child where "child = (case map_of (children t) ch of None \<Rightarrow> new_Trie | Some c \<Rightarrow> c)"
  have "no_dead_ends child"
  proof (cases "map_of (children t) ch")
    case None
    then show ?thesis by (simp add: child_def new_Trie_def no_dead_ends_def)
  next
    case (Some c)
    with Cons.prems(1) have "live c" by (simp add: no_dead_ends_child)
    with Some show ?thesis by (simp add: child_def live_no_dead_ends)
  qed
  then have "live (insert_word sc V rest child)" using Cons.prems(2) by (rule Cons.IH)
  with Cons.prems(1)
  have "live (Trie (object t) (map_store sc ch (insert_word sc V rest child) (children t)))"
    by (rule no_dead_ends_store)
  then show ?case by (simp only: insert_word.simps Let_def child_def)
qed

text \<open>
  A node that \<^verbatim>\<open>removeRecursive\<close> does not report as deletable stays live, and the nodes
  below it stay live in either case.
\<close>

lemma removeRecursive_live:
  "no_dead_ends t \<Longrightarrow> removeRecursive K t = (d, t') \<Longrightarrow>
   no_dead_ends t' \<and> (\<not> d \<longrightarrow> live t \<longrightarrow> live t')"
proof (induction K arbitrary: t d t')
  case Nil
  obtain obj cs where t: "t = Trie obj cs" by (cases t)
  show ?case
  proof (cases "obj = None")
    case True
    with Nil t show ?thesis by simp
  next
    case False
    with Nil t have "d = (cs = [])" "t' = Trie None cs" by auto
    with Nil.prems(1) t show ?thesis by (simp add: no_dead_ends_def)
  qed
next
  case (Cons ch rest)
  show ?case
  proof (cases "map_of (children t) ch")
    case None
    with Cons.prems show ?thesis by simp
  next
    case (Some child)
    obtain dc child' where rr: "removeRecursive rest child = (dc, child')"
      by (cases "removeRecursive rest child")
    from Some Cons.prems(1) have lc: "live child" by (simp add: no_dead_ends_child)
    then have "no_dead_ends child" by (rule live_no_dead_ends)
    from Cons.IH [OF this rr] lc have c': "\<not> dc \<Longrightarrow> live child'"
      by simp
    show ?thesis
    proof (cases dc)
      case True
      with Cons.prems(2) Some rr
      have d: "d = (object t = None \<and> map_erase ch (children t) = [])"
        and t': "t' = Trie (object t) (map_erase ch (children t))"
        by (simp_all add: Let_def)
      have nd: "no_dead_ends t'"
        unfolding t' using Cons.prems(1) by (rule no_dead_ends_erase_child)
      moreover have "\<not> d \<Longrightarrow> live t'"
        using nd d unfolding t' by (simp add: live_Trie del: live.simps)
      ultimately show ?thesis by simp
    next
      case False
      with Cons.prems(2) Some rr
      have d: "\<not> d" and t': "t' = Trie (object t) (map_assign ch child' (children t))"
        by simp_all
      from c' False have "live child'" by simp
      with Cons.prems(1) have "live t'" unfolding t' using Some by (rule no_dead_ends_assign)
      then show ?thesis by (simp add: live_no_dead_ends)
    qed
  qed
qed

lemma no_dead_ends_erase: "no_dead_ends t \<Longrightarrow> no_dead_ends (snd (erase K t))"
  using removeRecursive_live [of t K "fst (removeRecursive K t)" "snd (removeRecursive K t)"]
  by (simp add: erase_def)

lemma no_dead_ends_clear: "no_dead_ends (clear t)"
  by (simp add: clear_def no_dead_ends_def)

text \<open>
  Inserting a null pointer leaves the node at the end of the key live exactly when that node
  was there before and has a child.
\<close>

lemma find_node_new_Trie: "find_node new_Trie K = Some n \<Longrightarrow> children n = []"
  by (cases K) (auto simp: new_Trie_def)

lemma live_insert_null:
  "no_dead_ends t \<Longrightarrow>
   live (insert_word sc None K t) \<longleftrightarrow> (\<exists>n. find_node t K = Some n \<and> children n \<noteq> [])"
proof (induction K arbitrary: t)
  case Nil
  then show ?case by (simp add: no_dead_ends_def)
next
  case (Cons ch rest)
  define child where "child = (case map_of (children t) ch of None \<Rightarrow> new_Trie | Some c \<Rightarrow> c)"
  have nd: "no_dead_ends child"
  proof (cases "map_of (children t) ch")
    case None
    then show ?thesis by (simp add: child_def new_Trie_def no_dead_ends_def)
  next
    case (Some c)
    with Cons.prems have "live c" by (simp add: no_dead_ends_child)
    with Some show ?thesis by (simp add: child_def live_no_dead_ends)
  qed
  have f: "(\<exists>n. find_node t (ch # rest) = Some n \<and> children n \<noteq> []) \<longleftrightarrow>
           (\<exists>n. find_node child rest = Some n \<and> children n \<noteq> [])"
    by (auto simp: child_def dest: find_node_new_Trie split: option.splits)
  have "live (insert_word sc None (ch # rest) t) \<longleftrightarrow>
        live (Trie (object t) (map_store sc ch (insert_word sc None rest child) (children t)))"
    by (simp only: insert_word.simps Let_def child_def)
  also have "\<dots> \<longleftrightarrow> live (insert_word sc None rest child)"
    using Cons.prems unfolding no_dead_ends_def
    by (simp add: map_store_not_Nil list_all_map_store_iff)
  also have "\<dots> \<longleftrightarrow> (\<exists>n. find_node child rest = Some n \<and> children n \<noteq> [])"
    using nd by (rule Cons.IH)
  finally show ?case using f by simp
qed

lemma no_dead_ends_insert_null:
  "no_dead_ends t \<Longrightarrow>
   no_dead_ends (insert_word sc None K t) \<longleftrightarrow>
     K = [] \<or> (\<exists>n. find_node t K = Some n \<and> children n \<noteq> [])"
proof (cases K)
  case Nil
  assume "no_dead_ends t"
  with Nil show ?thesis by (simp add: no_dead_ends_def)
next
  case (Cons ch rest)
  assume nd: "no_dead_ends t"
  have "live (insert_word sc None K t) \<longleftrightarrow> no_dead_ends (insert_word sc None K t)"
    unfolding Cons by (simp add: Let_def live_Trie map_store_not_Nil del: live.simps)
  with live_insert_null [OF nd, of sc K] Cons show ?thesis by simp
qed

text \<open>
  Claim C8, as stated: every public operation keeps the tree free of nodes below the root
  that have neither an object nor a child. \<^verbatim>\<open>insert\<close> takes any pointer, and with
  \<^verbatim>\<open>nullptr\<close> on an empty tree it creates the path of "a" and marks nothing: the node of
  "a" is a dead end, whichever way \<^verbatim>\<open>char\<close> is signed.
\<close>

theorem insert_null_leaves_dead_end:
  "no_dead_ends (new_Trie :: nat Trie)
   \<and> \<not> no_dead_ends (insert_word True None ''a'' (new_Trie :: nat Trie))
   \<and> \<not> no_dead_ends (insert_word False None ''a'' (new_Trie :: nat Trie))"
  by (simp add: no_dead_ends_def new_Trie_def)

text \<open>
  Claim C8, amended: on a tree without dead ends, \<^verbatim>\<open>insert\<close> of an object that is not null,
  \<^verbatim>\<open>erase\<close> and \<^verbatim>\<open>clear\<close> leave the tree without dead ends, and \<^verbatim>\<open>insert\<close> of a null
  pointer does so exactly when the key is empty or the node at the end of the key was
  there before and has a child. The queries do not change the tree.
\<close>

theorem calls_keep_no_dead_ends:
  "no_dead_ends t \<Longrightarrow>
     (V \<noteq> None \<longrightarrow> no_dead_ends (insert_word sc V K t))
   \<and> (no_dead_ends (insert_word sc None K t) \<longleftrightarrow>
        K = [] \<or> (\<exists>n. find_node t K = Some n \<and> children n \<noteq> []))
   \<and> no_dead_ends (snd (erase K' t))
   \<and> no_dead_ends (clear t)"
  by (simp add: no_dead_ends_erase live_insert_word live_no_dead_ends no_dead_ends_clear
      no_dead_ends_insert_null)

theorem calls_keep_no_dead_ends_witness:
  "(let t = insert_word True (Some (1::nat)) ''ab'' new_Trie
    in no_dead_ends t \<and> Some (2::nat) \<noteq> None
     \<and> no_dead_ends (insert_word True (Some 2) ''ac'' t)
     \<and> no_dead_ends (insert_word True None ''a'' t)
     \<and> \<not> no_dead_ends (insert_word True None ''ab'' t)
     \<and> no_dead_ends (snd (erase ''ab'' t))
     \<and> no_dead_ends (clear t))"
proof -
  define t where "t = insert_word True (Some (1::nat)) ''ab'' new_Trie"
  have h1: "no_dead_ends t"
    by (simp add: t_def no_dead_ends_def new_Trie_def Let_def)
  have h2: "Some (2::nat) \<noteq> None" by simp
  note c = calls_keep_no_dead_ends [OF h1, of "Some 2" True "''ac''" "''ab''"]
  from c h2 have 1: "no_dead_ends (insert_word True (Some 2) ''ac'' t)"
    by (rule conjunct1 [THEN mp])
  have "''a'' = [] \<or> (\<exists>n. find_node t ''a'' = Some n \<and> children n \<noteq> [])"
    by (simp add: t_def new_Trie_def Let_def)
  then have 2: "no_dead_ends (insert_word True None ''a'' t)"
    by (rule calls_keep_no_dead_ends
        [OF h1, of _ True "''a''", THEN conjunct2, THEN conjunct1, THEN iffD2])
  have n: "\<not> (''ab'' = [] \<or> (\<exists>n. find_node t ''ab'' = Some n \<and> children n \<noteq> []))"
    by (simp add: t_def new_Trie_def Let_def)
  have 3: "\<not> no_dead_ends (insert_word True None ''ab'' t)"
  proof
    assume "no_dead_ends (insert_word True None ''ab'' t)"
    with calls_keep_no_dead_ends [OF h1, of _ True "''ab''", THEN conjunct2, THEN conjunct1]
    have "''ab'' = [] \<or> (\<exists>n. find_node t ''ab'' = Some n \<and> children n \<noteq> [])"
      by (rule iffD1)
    with n show False by (rule notE)
  qed
  show ?thesis unfolding Let_def t_def [symmetric]
    by (intro conjI) (rule h1, rule h2, rule 1, rule 2, rule 3,
      rule c [THEN conjunct2, THEN conjunct2, THEN conjunct1],
      rule c [THEN conjunct2, THEN conjunct2, THEN conjunct2])
qed

section \<open>Traversal and completion\<close>

lemma Trie_induct [case_names Trie]:
  assumes "\<And>obj cs. (\<And>k c. (k, c) \<in> set cs \<Longrightarrow> P c) \<Longrightarrow> P (Trie obj cs)"
  shows "P t"
proof (induction t)
  case (Trie obj cs)
  show ?case
  proof (rule assms)
    fix k c
    assume "(k, c) \<in> set cs"
    then show "P c" by (rule Trie.IH) simp
  qed
qed

subsection \<open>The traversal visits the entries in their order\<close>

lemma values_entries:
  "map snd (entries (Trie obj cs)) =
     (case obj of None \<Rightarrow> [] | Some v \<Rightarrow> [v]) @
     concat (map (\<lambda>kc. map snd (entries (snd kc))) cs)"
  by (simp add: map_concat comp_def split: option.splits)

lemma fold_traverse_children:
  assumes "\<And>k c s. (k, c) \<in> set cs \<Longrightarrow>
             traverseRecursive f c s = fold f (map snd (entries c)) s"
  shows "fold (\<lambda>kc. traverseRecursive f (snd kc)) cs s =
         fold f (concat (map (\<lambda>kc. map snd (entries (snd kc))) cs)) s"
  using assms
proof (induction cs arbitrary: s)
  case Nil
  then show ?case by simp
next
  case (Cons kc cs)
  obtain k c where kc: "kc = (k, c)" by (cases kc)
  have "traverseRecursive f c s = fold f (map snd (entries c)) s"
    by (rule Cons.prems [of k]) (simp add: kc)
  moreover have "fold (\<lambda>kc. traverseRecursive f (snd kc)) cs s' =
         fold f (concat (map (\<lambda>kc. map snd (entries (snd kc))) cs)) s'" for s'
  proof (rule Cons.IH)
    fix k' c' s''
    assume "(k', c') \<in> set cs"
    then show "traverseRecursive f c' s'' = fold f (map snd (entries c')) s''"
      using Cons.prems [of k' c'] by simp
  qed
  ultimately show ?case by (simp add: kc)
qed

lemma traverseRecursive_entries:
  "traverseRecursive f t s = fold f (map snd (entries t)) s"
proof (induction t arbitrary: s rule: Trie_induct)
  case (Trie obj cs)
  have "fold (\<lambda>kc. traverseRecursive f (snd kc)) cs s' =
         fold f (concat (map (\<lambda>kc. map snd (entries (snd kc))) cs)) s'" for s'
    by (rule fold_traverse_children) (rule Trie.IH)
  then show ?case unfolding values_entries by (cases obj) simp_all
qed

lemma fold_push_back: "fold (\<lambda>obj rs. rs @ [obj]) xs rs = rs @ xs"
  by (induction xs arbitrary: rs) simp_all

lemma getAllObjects_entries: "getAllObjects t results = results @ map snd (entries t)"
  by (simp add: getAllObjects_def traverseRecursive_entries fold_push_back)

lemma autoComplete_Some:
  "find_node t P = Some n \<Longrightarrow> autoComplete t P = map snd (entries n)"
  by (simp add: autoComplete_def getAllObjects_entries)

subsection \<open>The entries are the stored words\<close>

lemma sorted_keys_distinct: "sorted_keys sc (Trie obj cs) \<Longrightarrow> distinct (map fst cs)"
  by (auto dest: sorted_char_less_distinct)

lemma sorted_keys_child: "sorted_keys sc (Trie obj cs) \<Longrightarrow> (k, c) \<in> set cs \<Longrightarrow> sorted_keys sc c"
  by (auto simp: list_all_iff)

lemma entries_Nil_iff: "([], v) \<in> set (entries (Trie obj cs)) \<longleftrightarrow> obj = Some v"
  by (auto split: option.splits)

lemma entries_Cons_iff:
  "(c # r, v) \<in> set (entries (Trie obj cs)) \<longleftrightarrow>
   (\<exists>child. (c, child) \<in> set cs \<and> (r, v) \<in> set (entries child))"
  by (force split: option.splits)

lemma entries_iff:
  "sorted_keys sc t \<Longrightarrow> (w, v) \<in> set (entries t) \<longleftrightarrow> wordExists t w = Some v"
proof (induction t arbitrary: w rule: Trie_induct)
  case (Trie obj cs)
  show ?case
  proof (cases w)
    case Nil
    then show ?thesis by (simp only: entries_Nil_iff wordExists_Nil Trie.sel)
  next
    case (Cons c r)
    from Trie.prems have d: "distinct (map fst cs)" by (rule sorted_keys_distinct)
    have "(\<exists>child. (c, child) \<in> set cs \<and> (r, v) \<in> set (entries child)) \<longleftrightarrow>
          (\<exists>child. map_of cs c = Some child \<and> wordExists child r = Some v)"
      using d Trie.IH sorted_keys_child [OF Trie.prems] by auto
    then show ?thesis
      unfolding Cons entries_Cons_iff by (simp add: wordExists_Cons split: option.splits)
  qed
qed

subsection \<open>The entries are in lexicographic order\<close>

lemma sorted_blocks:
  assumes "sorted_wrt (char_less sc) (map fst (cs :: (char \<times> 'c) list))"
    and "\<And>k c. (k, c) \<in> set cs \<Longrightarrow> sorted_wrt (key_less sc) (map fst (E c))"
  shows "sorted_wrt (key_less sc) (map fst
           (concat (map (\<lambda>kc. map (\<lambda>wv. (fst kc # fst wv, snd wv)) (E (snd kc))) cs)))"
  using assms
proof (induction cs)
  case Nil
  then show ?case by simp
next
  case (Cons kc cs)
  obtain k c where kc: "kc = (k, c)" by (cases kc)
  have 1: "sorted_wrt (key_less sc) (map fst (map (\<lambda>wv. (k # fst wv, snd wv)) (E c)))"
    using Cons.prems(2) [of k c] by (simp add: kc sorted_wrt_map comp_def char_less_irrefl)
  have 2: "sorted_wrt (key_less sc) (map fst
             (concat (map (\<lambda>kc. map (\<lambda>wv. (fst kc # fst wv, snd wv)) (E (snd kc))) cs)))"
  proof (rule Cons.IH)
    show "sorted_wrt (char_less sc) (map fst cs)" using Cons.prems(1) by simp
  next
    fix k' c'
    assume "(k', c') \<in> set cs"
    then show "sorted_wrt (key_less sc) (map fst (E c'))" using Cons.prems(2) [of k' c'] by simp
  qed
  have 3: "key_less sc x y"
    if "x \<in> set (map fst (map (\<lambda>wv. (k # fst wv, snd wv)) (E c)))"
    and "y \<in> set (map fst
           (concat (map (\<lambda>kc. map (\<lambda>wv. (fst kc # fst wv, snd wv)) (E (snd kc))) cs)))"
    for x y
  proof -
    from that(1) obtain w where x: "x = k # w" by auto
    from that(2) obtain k' w' where y: "y = k' # w'" and "k' \<in> fst ` set cs" by force
    with Cons.prems(1) have "char_less sc k k'" by (auto simp: kc)
    with x y show ?thesis by simp
  qed
  show ?case
    using 1 2 3 unfolding kc by (simp add: sorted_wrt_append)
qed

lemma sorted_entries: "sorted_keys sc t \<Longrightarrow> sorted_wrt (key_less sc) (map fst (entries t))"
proof (induction t rule: Trie_induct)
  case (Trie obj cs)
  have "sorted_wrt (key_less sc) (map fst
          (concat (map (\<lambda>kc. map (\<lambda>wv. (fst kc # fst wv, snd wv)) (entries (snd kc))) cs)))"
  proof (rule sorted_blocks)
    show "sorted_wrt (char_less sc) (map fst cs)" using Trie.prems by simp
  next
    fix k c
    assume "(k, c) \<in> set cs"
    then show "sorted_wrt (key_less sc) (map fst (entries c))"
      using Trie.IH sorted_keys_child [OF Trie.prems] by blast
  qed
  moreover have "key_less sc [] y"
    if "y \<in> set (map fst
          (concat (map (\<lambda>kc. map (\<lambda>wv. (fst kc # fst wv, snd wv)) (entries (snd kc))) cs)))"
    for y
    using that by auto
  ultimately show ?case
    by (cases obj) (simp_all add: sorted_wrt_append del: map_concat set_concat)
qed

subsection \<open>Every tree a client can build has sorted keys\<close>

lemma sorted_keys_new_Trie: "sorted_keys sc new_Trie"
  by (simp add: new_Trie_def)

lemma sorted_keys_store:
  "sorted_keys sc t \<Longrightarrow> sorted_keys sc c \<Longrightarrow> sorted_keys sc (Trie obj (map_store sc ch c (children t)))"
  by (cases t) (simp add: sorted_map_store list_all_map_store)

lemma sorted_keys_assign:
  "sorted_keys sc t \<Longrightarrow> sorted_keys sc c \<Longrightarrow>
   sorted_keys sc (Trie obj (map_assign ch c (children t)))"
  by (cases t) (simp add: map_fst_map_assign list_all_map_assign)

lemma sorted_keys_erase_child:
  "sorted_keys sc t \<Longrightarrow> sorted_keys sc (Trie obj (map_erase ch (children t)))"
  by (cases t) (simp add: sorted_map_erase list_all_map_erase)

lemma sorted_keys_lookup:
  "sorted_keys sc t \<Longrightarrow> map_of (children t) ch = Some c \<Longrightarrow> sorted_keys sc c"
proof -
  assume s: "sorted_keys sc t" and m: "map_of (children t) ch = Some c"
  obtain obj cs where t: "t = Trie obj cs" by (cases t)
  from m have "(ch, c) \<in> set cs" unfolding t by (simp add: map_of_SomeD)
  with s show ?thesis unfolding t by (rule sorted_keys_child)
qed

lemma find_node_sorted_keys:
  "sorted_keys sc t \<Longrightarrow> find_node t P = Some n \<Longrightarrow> sorted_keys sc n"
proof (induction P arbitrary: t)
  case Nil
  then show ?case by simp
next
  case (Cons ch rest)
  from Cons.prems(2) obtain child
    where c: "map_of (children t) ch = Some child" and f: "find_node child rest = Some n"
    by (auto split: option.splits)
  from Cons.prems(1) c have "sorted_keys sc child" by (rule sorted_keys_lookup)
  then show ?case using f by (rule Cons.IH)
qed

lemma sorted_keys_insert_word: "sorted_keys sc t \<Longrightarrow> sorted_keys sc (insert_word sc obj K t)"
proof (induction K arbitrary: t)
  case Nil
  then show ?case by (cases t) simp
next
  case (Cons ch rest)
  define child where "child = (case map_of (children t) ch of None \<Rightarrow> new_Trie | Some c \<Rightarrow> c)"
  have "sorted_keys sc child"
    using Cons.prems
    by (auto simp: child_def sorted_keys_new_Trie sorted_keys_lookup split: option.splits)
  then have "sorted_keys sc (insert_word sc obj rest child)" by (rule Cons.IH)
  with Cons.prems
  have "sorted_keys sc (Trie (object t) (map_store sc ch (insert_word sc obj rest child) (children t)))"
    by (rule sorted_keys_store)
  then show ?case by (simp only: insert_word.simps Let_def child_def)
qed

lemma sorted_keys_removeRecursive: "sorted_keys sc t \<Longrightarrow> sorted_keys sc (snd (removeRecursive K t))"
proof (induction K arbitrary: t)
  case Nil
  then show ?case by (cases t) simp
next
  case (Cons ch rest)
  show ?case
  proof (cases "map_of (children t) ch")
    case None
    with Cons.prems show ?thesis by simp
  next
    case (Some child)
    with Cons.prems have "sorted_keys sc child" by (simp add: sorted_keys_lookup)
    then have IH: "sorted_keys sc (snd (removeRecursive rest child))" by (rule Cons.IH)
    obtain dc child' where rr: "removeRecursive rest child = (dc, child')"
      by (cases "removeRecursive rest child")
    with IH have "sorted_keys sc child'" by simp
    with Cons.prems have "sorted_keys sc (Trie (object t) (map_assign ch child' (children t)))"
      by (rule sorted_keys_assign)
    moreover from Cons.prems have "sorted_keys sc (Trie (object t) (map_erase ch (children t)))"
      by (rule sorted_keys_erase_child)
    ultimately show ?thesis
      using Some rr by (simp add: Let_def del: sorted_keys.simps)
  qed
qed

lemma sorted_keys_perform: "sorted_keys sc t \<Longrightarrow> sorted_keys sc (perform sc c t)"
  by (cases c)
     (simp_all add: sorted_keys_insert_word erase_def sorted_keys_removeRecursive clear_def)

lemma sorted_keys_after_calls: "sorted_keys sc (after_calls sc calls)"
proof -
  have "sorted_keys sc t \<Longrightarrow> sorted_keys sc (fold (perform sc) calls t)" for t :: "'a Trie"
    by (induction calls arbitrary: t) (simp_all add: sorted_keys_perform)
  then show ?thesis by (simp add: after_calls_def sorted_keys_new_Trie)
qed

subsection \<open>The result of \<^verbatim>\<open>autoComplete\<close>\<close>

lemma autoComplete_keys:
  assumes "sorted_keys sc t"
  shows "\<exists>ws. sorted_wrt (key_less sc) ws \<and> set ws = {w. prefix P w \<and> wordExists t w \<noteq> None}
          \<and> map Some (autoComplete t P) = map (wordExists t) ws"
proof (cases "find_node t P")
  case None
  then have "{w. prefix P w \<and> wordExists t w \<noteq> None} = {}"
    by (auto simp: prefix_def wordExists_append)
  with None have "sorted_wrt (key_less sc) ([] :: string list)
      \<and> set [] = {w. prefix P w \<and> wordExists t w \<noteq> None}
      \<and> map Some (autoComplete t P) = map (wordExists t) []"
    by (simp add: autoComplete_def)
  then show ?thesis by blast
next
  case (Some n)
  with assms have sn: "sorted_keys sc n" by (rule find_node_sorted_keys)
  define ws where "ws = map (\<lambda>e. P @ fst e) (entries n)"
  have w: "wordExists t (P @ k) = wordExists n k" for k
    by (simp add: wordExists_append Some)
  have 1: "sorted_wrt (key_less sc) ws"
    using sorted_entries [OF sn] by (simp add: ws_def sorted_wrt_map key_less_append)
  have 2: "set ws = {w. prefix P w \<and> wordExists t w \<noteq> None}"
  proof (rule set_eqI)
    fix x
    have "x \<in> set ws \<longleftrightarrow> (\<exists>k v. x = P @ k \<and> (k, v) \<in> set (entries n))"
      by (force simp: ws_def)
    also have "\<dots> \<longleftrightarrow> (\<exists>k v. x = P @ k \<and> wordExists n k = Some v)"
      by (simp add: entries_iff [OF sn])
    also have "\<dots> \<longleftrightarrow> x \<in> {w. prefix P w \<and> wordExists t w \<noteq> None}"
      using w by (auto simp: prefix_def)
    finally show "x \<in> set ws \<longleftrightarrow> x \<in> {w. prefix P w \<and> wordExists t w \<noteq> None}" .
  qed
  have "wordExists t (P @ fst e) = Some (snd e)" if "e \<in> set (entries n)" for e
    using that entries_iff [OF sn, of "fst e" "snd e"] by (simp add: w)
  then have 3: "map Some (autoComplete t P) = map (wordExists t) ws"
    by (simp add: autoComplete_Some [OF Some] ws_def)
  from 1 2 3 show ?thesis by blast
qed





subsection \<open>Inserting a null pointer\<close>

lemma wordExists_insert_null: "wordExists (insert_word sc None K new_Trie) w = None"
  by (cases "w = K")
     (simp_all add: wordExists_insert_word wordExists_insert_word_other wordExists_new_Trie)

lemma autoComplete_insert_null: "autoComplete (insert_word sc None K new_Trie) P = []"
proof -
  have "sorted_keys sc (insert_word sc None K (new_Trie :: 'a Trie))"
    by (simp add: sorted_keys_insert_word sorted_keys_new_Trie)
  from autoComplete_keys [OF this, of P]
  obtain ws
    where "set ws = {w. prefix P w \<and> wordExists (insert_word sc None K (new_Trie :: 'a Trie)) w \<noteq> None}"
      and m: "map Some (autoComplete (insert_word sc None K (new_Trie :: 'a Trie)) P) =
              map (wordExists (insert_word sc None K new_Trie)) ws"
    by blast
  then have "ws = []" by (simp add: wordExists_insert_null)
  with m show ?thesis by simp
qed

text \<open>
  Claim C10. For every key K, after \<^verbatim>\<open>insert(nullptr, K)\<close> on an empty tree,
  \<^verbatim>\<open>wordExists(K)\<close> finds nothing, \<^verbatim>\<open>erase(K)\<close> returns false and leaves the tree with its
  path nodes as it is, \<^verbatim>\<open>autoComplete\<close> of every prefix of K is empty, and
  \<^verbatim>\<open>prefixExists(K)\<close> is true.
\<close>

theorem insert_null_creates_path_only:
  "wordExists (insert_word sc None K new_Trie) K = None
   \<and> erase K (insert_word sc None K new_Trie) = (False, insert_word sc None K new_Trie)
   \<and> (\<forall>P. prefix P K \<longrightarrow> autoComplete (insert_word sc None K new_Trie) P = [])
   \<and> prefixExists (insert_word sc None K new_Trie) K"
  by (simp add: wordExists_insert_word erase_def autoComplete_insert_null prefixExists_def
      find_node_insert_word)

theorem insert_null_creates_path_only_witness:
  "(let t = insert_word True None ''ab'' (new_Trie :: nat Trie)
    in prefix ''a'' ''ab'' \<and> wordExists t ''ab'' = None \<and> erase ''ab'' t = (False, t)
     \<and> autoComplete t ''a'' = [] \<and> prefixExists t ''ab'')"
proof -
  define t where "t = insert_word True None ''ab'' (new_Trie :: nat Trie)"
  have h: "prefix ''a'' ''ab''" by simp
  note i = insert_null_creates_path_only [of True "''ab''", where ?'a = nat]
  from i have 1: "wordExists t ''ab'' = None" unfolding t_def by (rule conjunct1)
  from i have 2: "erase ''ab'' t = (False, t)" unfolding t_def by (rule conjunct2 [THEN conjunct1])
  from h have 3: "autoComplete t ''a'' = []" unfolding t_def
    by (rule i [THEN conjunct2, THEN conjunct2, THEN conjunct1, rule_format])
  from i have 4: "prefixExists t ''ab''" unfolding t_def
    by (rule conjunct2 [THEN conjunct2, THEN conjunct2])
  show ?thesis unfolding Let_def t_def [symmetric]
    by (intro conjI) (rule h, rule 1, rule 2, rule 3, rule 4)
qed

end
